theory Spec2Isabelle
  imports Main "HOL-Library.Sublist"
begin

section \<open>Python string operations used by the agents\<close>

text \<open>
  A Python \<open>str\<close> is a sequence of code points. The texts of this development are
  \<open>string\<close>s, that is, sequences of the code points 0 to 255; \<open>length\<close> counts code
  points as Python's \<open>len\<close> does. Every operation below is the one of the Python
  standard library, restricted to such texts.
\<close>

definition isspace :: "char \<Rightarrow> bool" where
  \<comment> \<open>\<open>str.isspace\<close> on one character, which is also what \<open>str.strip()\<close> removes and
      what \<open>\s\<close> matches in a \<open>str\<close> pattern of \<open>re\<close>\<close>
  "isspace c =
     (let n = (of_char c :: nat)
      in (9 \<le> n \<and> n \<le> 13) \<or> (28 \<le> n \<and> n \<le> 32) \<or> n = 133 \<or> n = 160)"

definition str_strip :: "string \<Rightarrow> string" where
  "str_strip s = rev (dropWhile isspace (rev (dropWhile isspace s)))"

definition str_startswith :: "string \<Rightarrow> string \<Rightarrow> bool" where
  "str_startswith s p = prefix p s"

definition str_endswith :: "string \<Rightarrow> string \<Rightarrow> bool" where
  "str_endswith s p = suffix p s"

fun find_from :: "string \<Rightarrow> string \<Rightarrow> nat \<Rightarrow> int" where
  "find_from sub [] i = (if sub = [] then int i else - 1)"
| "find_from sub (c # cs) i =
     (if prefix sub (c # cs) then int i else find_from sub cs (Suc i))"

definition str_find :: "string \<Rightarrow> string \<Rightarrow> int" where
  \<comment> \<open>\<open>s.find(sub)\<close>: the lowest index where \<open>sub\<close> starts, \<open>-1\<close> when there is none\<close>
  "str_find s sub = find_from sub s 0"

fun rfind_from :: "string \<Rightarrow> string \<Rightarrow> nat \<Rightarrow> int" where
  "rfind_from sub [] i = (if sub = [] then int i else - 1)"
| "rfind_from sub (c # cs) i =
     (let r = rfind_from sub cs (Suc i)
      in if r \<noteq> - 1 then r else if prefix sub (c # cs) then int i else - 1)"

definition str_rfind :: "string \<Rightarrow> string \<Rightarrow> int" where
  \<comment> \<open>\<open>s.rfind(sub)\<close>: the highest index where \<open>sub\<close> starts, \<open>-1\<close> when there is none\<close>
  "str_rfind s sub = rfind_from sub s 0"

definition slice_index :: "nat \<Rightarrow> int \<Rightarrow> nat" where
  \<comment> \<open>how a slice bound is read: a negative bound counts from the end, and every bound
      is clipped to the text\<close>
  "slice_index n i = (if i < 0 then nat (max 0 (i + int n)) else min (nat i) n)"

definition str_slice :: "string \<Rightarrow> int \<Rightarrow> int \<Rightarrow> string" where
  \<comment> \<open>\<open>s[a:b]\<close>\<close>
  "str_slice s a b =
     (let lo = slice_index (length s) a; hi = slice_index (length s) b
      in take (hi - lo) (drop lo s))"

definition str_slice_from :: "string \<Rightarrow> int \<Rightarrow> string" where
  \<comment> \<open>\<open>s[a:]\<close>\<close>
  "str_slice_from s a = drop (slice_index (length s) a) s"

definition str_slice_to :: "string \<Rightarrow> int \<Rightarrow> string" where
  \<comment> \<open>\<open>s[:b]\<close>\<close>
  "str_slice_to s b = take (slice_index (length s) b) s"

section \<open>Locating the payload in the response\<close>

text \<open>
  \<open>generate_titles\<close> looks for an array, \<open>generate_content\<close> for an object. Both run
  the same statements on the response, with their own pair of delimiters.
\<close>

datatype shape = Array | Object

fun open_delim :: "shape \<Rightarrow> string" where
  "open_delim Array = ''[''"
| "open_delim Object = ''{''"

fun close_delim :: "shape \<Rightarrow> string" where
  "close_delim Array = '']''"
| "close_delim Object = ''}''"

definition extract_payload :: "shape \<Rightarrow> string \<Rightarrow> string" where
  "extract_payload sh raw_llm_response_content =
     (let content_str = str_strip raw_llm_response_content
      in if str_startswith content_str ''```json'' then
           let content_str = str_slice_from content_str 7;
               content_str = (if str_endswith content_str ''```''
                              then str_slice_to content_str (- 3) else content_str)
           in str_strip content_str
         else if \<not> (str_startswith content_str (open_delim sh)
                     \<and> str_endswith content_str (close_delim sh)) then
           let start_idx = str_find content_str (open_delim sh);
               end_idx = str_rfind content_str (close_delim sh) + 1
           in if start_idx \<noteq> - 1 \<and> end_idx \<noteq> - 1
              then str_slice content_str start_idx end_idx
              else content_str
         else content_str)"

section \<open>Repairing the payload\<close>

function str_replace :: "string \<Rightarrow> string \<Rightarrow> string \<Rightarrow> string" where
  \<comment> \<open>\<open>s.replace(old, new)\<close> for a non-empty \<open>old\<close>, which is how the source calls it:
      the occurrences are taken from the left and do not overlap\<close>
  "str_replace old new [] = []"
| "str_replace old new (c # cs) =
     (if old \<noteq> [] \<and> prefix old (c # cs)
      then new @ str_replace old new (drop (length old) (c # cs))
      else c # str_replace old new cs)"
  by pat_completeness auto
termination
  by (relation "measure (\<lambda>(old, new, s). length s)") auto

definition ident_start :: "char \<Rightarrow> bool" where
  \<comment> \<open>the class \<open>[a-zA-Z_]\<close>\<close>
  "ident_start c = (c \<in> set ''abcdefghijklmnopqrstuvwxyzABCDEFGHIJKLMNOPQRSTUVWXYZ_'')"

definition ident_char :: "char \<Rightarrow> bool" where
  \<comment> \<open>the class \<open>[a-zA-Z0-9_]\<close>\<close>
  "ident_char c = (ident_start c \<or> c \<in> set ''0123456789'')"

definition match_key :: "string \<Rightarrow> (string \<times> string) option" where
  \<comment> \<open>a match of \<open>([{,]\s*)([a-zA-Z_][a-zA-Z0-9_]*)\s*:\<close> at the start of the text: its
      replacement \<open>\1"\2":\<close> and the text after the match. No character is both in
      \<open>\s\<close> and in the class that follows it, nor in the identifier class and in the
      one that follows it, so the greedy match is the only candidate.\<close>
  \<open>match_key s =
     (case s of
        [] \<Rightarrow> None
      | c # cs \<Rightarrow>
          if c = CHR ''{'' \<or> c = CHR '','' then
            (case dropWhile isspace cs of
               [] \<Rightarrow> None
             | d # ds \<Rightarrow>
                 if ident_start d then
                   (case dropWhile isspace (dropWhile ident_char ds) of
                      [] \<Rightarrow> None
                    | e # rest \<Rightarrow>
                        if e = CHR '':''
                        then Some (c # takeWhile isspace cs @ ''"'' @ d # takeWhile ident_char ds
                                     @ ''":'', rest)
                        else None)
                 else None)
          else None)\<close>

function sub_keys :: "string \<Rightarrow> string" where
  \<comment> \<open>\<open>re.sub\<close> of the key pattern: the matches are taken from the left, and the search
      goes on after each match\<close>
  "sub_keys [] = []"
| "sub_keys (c # cs) =
     (case match_key (c # cs) of
        Some (replacement, rest) \<Rightarrow> replacement @ sub_keys rest
      | None \<Rightarrow> c # sub_keys cs)"
  by pat_completeness auto
termination
proof (relation "measure length")
  fix c cs x replacement rest
  assume m: "match_key (c # cs) = Some x" and x: "(replacement, rest) = x"
  have a: "length (dropWhile P xs) \<le> length xs" for P and xs :: string
    by (induction xs) auto
  from m x obtain d ds e where
    d: "dropWhile isspace cs = d # ds" and
    e: "dropWhile isspace (dropWhile ident_char ds) = e # rest"
    by (auto simp: match_key_def split: if_splits list.splits)
  have "length (e # rest) \<le> length ds"
    using a [of isspace "dropWhile ident_char ds"] a [of ident_char ds] by (simp only: e)
  moreover have "length (d # ds) \<le> length cs"
    using a [of isspace cs] by (simp only: d)
  ultimately show "(rest, c # cs) \<in> measure length"
    by simp
qed auto

definition clean_json_string :: "string \<Rightarrow> string" where
  "clean_json_string json_str =
     (let json_str = str_replace '',}'' ''}'' (str_replace '',]'' '']'' json_str)
      in sub_keys json_str)"

section \<open>Python values and \<open>json.loads\<close>\<close>

text \<open>
  The values that \<open>json.loads\<close> builds and the agents return. A \<open>str\<close> value holds its
  code points, since a \<open>\uXXXX\<close> escape of the payload may denote any of them. A float is
  held as the numeral that \<open>float\<close> is applied to. A \<open>dict\<close> lists its items in insertion
  order, with distinct keys.
\<close>

type_synonym ustr = "int list"

datatype pyval =
    PNone
  | PBool bool
  | PInt int
  | PFloat string
  | PStr ustr
  | PList "pyval list"
  | PDict "(ustr \<times> pyval) list"

definition ustr :: "string \<Rightarrow> ustr" where
  "ustr s = map of_char s"

type_synonym pydict = "(ustr \<times> pyval) list"

definition dict_has :: "pydict \<Rightarrow> ustr \<Rightarrow> bool" where
  \<comment> \<open>\<open>k in d\<close>\<close>
  "dict_has d k = (k \<in> fst ` set d)"

definition dict_set :: "pydict \<Rightarrow> ustr \<Rightarrow> pyval \<Rightarrow> pydict" where
  \<comment> \<open>\<open>d[k] = v\<close>: a key that is there keeps its place\<close>
  "dict_set d k v =
     (if dict_has d k then map (\<lambda>(k', v'). if k' = k then (k', v) else (k', v')) d
      else d @ [(k, v)])"

definition dict_of_pairs :: "(ustr \<times> pyval) list \<Rightarrow> pydict" where
  \<comment> \<open>\<open>dict(pairs)\<close>\<close>
  "dict_of_pairs pairs = foldl (\<lambda>d (k, v). dict_set d k v) [] pairs"

datatype exn = JSONDecodeError | IndexError | ValueError | LLMError string

text \<open>
  \<open>json.loads\<close> with its default arguments, as the decoder of the Python standard library
  reads a text: \<open>None\<close> stands for \<open>JSONDecodeError\<close> in the functions that read a part
  of the text, which give the value read and the text after it. The interpreter's limits
  (the depth of recursion, the number of digits of an integer) are not part of the model.
\<close>

definition json_ws :: "char \<Rightarrow> bool" where
  "json_ws c = (c = CHR '' '' \<or> c = CHR 0x09 \<or> c = CHR 0x0A \<or> c = CHR 0x0D)"

definition skip_ws :: "string \<Rightarrow> string" where
  "skip_ws s = dropWhile json_ws s"

definition isdigit :: "char \<Rightarrow> bool" where
  "isdigit c = (c \<in> set ''0123456789'')"

definition digit_val :: "char \<Rightarrow> int" where
  "digit_val c = of_char c - 48"

definition digits_val :: "string \<Rightarrow> int" where
  "digits_val ds = foldl (\<lambda>a c. 10 * a + digit_val c) 0 ds"

definition hex_val :: "char \<Rightarrow> int option" where
  "hex_val c =
     (if isdigit c then Some (of_char c - 48)
      else if c \<in> set ''abcdef'' then Some (of_char c - 87)
      else if c \<in> set ''ABCDEF'' then Some (of_char c - 55)
      else None)"

definition decode_uXXXX :: "string \<Rightarrow> int option" where
  \<comment> \<open>the four hexadecimal digits of a \<open>\uXXXX\<close> escape\<close>
  "decode_uXXXX s =
     (if 4 \<le> length s \<and> list_all (\<lambda>c. hex_val c \<noteq> None) (take 4 s)
      then Some (foldl (\<lambda>a c. 16 * a + the (hex_val c)) 0 (take 4 s))
      else None)"

definition backslash :: "char \<Rightarrow> int option" where
  \<open>backslash c =
     (if c = CHR ''"'' then Some 34
      else if c = CHR 0x5C then Some 92
      else if c = CHR ''/'' then Some 47
      else if c = CHR ''b'' then Some 8
      else if c = CHR ''f'' then Some 12
      else if c = CHR ''n'' then Some 10
      else if c = CHR ''r'' then Some 13
      else if c = CHR ''t'' then Some 9
      else None)\<close>

function scanstring :: "string \<Rightarrow> ustr \<Rightarrow> (ustr \<times> string) option" where
  \<comment> \<open>the text after an opening quote, up to the closing one; the second argument is
      what has been read of the value\<close>
  "scanstring [] acc = None"
| \<open>scanstring (c # cs) acc =
     (if c = CHR ''"'' then Some (acc, cs)
      else if c = CHR 0x5C then
        (case cs of
           [] \<Rightarrow> None
         | esc # es \<Rightarrow>
             if esc = CHR ''u'' then
               (case decode_uXXXX es of
                  None \<Rightarrow> None
                | Some uni \<Rightarrow>
                    if 0xD800 \<le> uni \<and> uni \<le> 0xDBFF \<and> prefix [CHR 0x5C, CHR ''u''] (drop 4 es)
                    then
                      (case decode_uXXXX (drop 6 es) of
                         None \<Rightarrow> None
                       | Some uni2 \<Rightarrow>
                           if 0xDC00 \<le> uni2 \<and> uni2 \<le> 0xDFFF
                           then scanstring (drop 10 es)
                                  (acc @ [0x10000 + (uni - 0xD800) * 1024 + (uni2 - 0xDC00)])
                           else scanstring (drop 4 es) (acc @ [uni]))
                    else scanstring (drop 4 es) (acc @ [uni]))
             else
               (case backslash esc of
                  None \<Rightarrow> None
                | Some ch \<Rightarrow> scanstring es (acc @ [ch])))
      else if (of_char c :: int) < 32 then None
      else scanstring cs (acc @ [of_char c]))\<close>
  by pat_completeness auto
termination
  by (relation "measure (\<lambda>(s, acc). length s)") auto

lemma scanstring_shorter: "scanstring t acc = Some (k, u) \<Longrightarrow> length u < length t"
proof (induction t acc rule: scanstring.induct)
  case (1 acc)
  then show ?case by simp
next
  case (2 c cs acc)
  show ?case
  proof (cases "c = CHR 0x22")
    case True
    with "2.prems" show ?thesis by simp
  next
    case nq: False
    show ?thesis
    proof (cases "c = CHR 0x5C")
      case False
      with nq "2.IH"(5)[OF nq False] "2.prems" show ?thesis
        by (auto split: if_splits)
    next
      case bs: True
      show ?thesis
      proof (cases cs)
        case Nil
        with nq bs "2.prems" show ?thesis by simp
      next
        case (Cons esc es)
        show ?thesis
        proof (cases "esc = CHR ''u''")
          case False
          with nq bs Cons "2.IH"(4)[OF nq bs Cons False] "2.prems" show ?thesis
            by (auto split: option.splits)
        next
          case u: True
          from nq bs Cons u "2.prems" obtain uni where d: "decode_uXXXX es = Some uni"
            by (auto split: option.splits)
          show ?thesis
            using nq bs Cons u d "2.prems" "2.IH"(1)[OF nq bs Cons u d]
              "2.IH"(2)[OF nq bs Cons u d] "2.IH"(3)[OF nq bs Cons u d]
            by (auto split: option.splits if_splits)
        qed
      qed
    qed
  qed
qed

definition match_exponent :: "string \<Rightarrow> string \<times> string" where
  \<comment> \<open>the optional group \<open>([eE][-+]?[0-9]+)\<close>: what it matches and the text after it\<close>
  "match_exponent s =
     (case s of
        [] \<Rightarrow> ([], s)
      | e # r \<Rightarrow>
          if e = CHR ''e'' \<or> e = CHR ''E'' then
            (let sg = (case r of [] \<Rightarrow> [] | x # _ \<Rightarrow> if x = CHR ''-'' \<or> x = CHR ''+'' then [x] else []);
                 r' = drop (length sg) r
             in if takeWhile isdigit r' = [] then ([], s)
                else (e # sg @ takeWhile isdigit r', dropWhile isdigit r'))
          else ([], s))"

definition match_fraction :: "string \<Rightarrow> string \<times> string" where
  \<comment> \<open>the optional group \<open>(\.[0-9]+)\<close>\<close>
  "match_fraction s =
     (case s of
        [] \<Rightarrow> ([], s)
      | d # r \<Rightarrow>
          if d = CHR ''.'' \<and> takeWhile isdigit r \<noteq> []
          then (d # takeWhile isdigit r, dropWhile isdigit r)
          else ([], s))"

definition match_integer :: "string \<Rightarrow> (string \<times> string) option" where
  \<comment> \<open>the group \<open>(-?(?:0|[1-9][0-9]*))\<close>: what it matches and the text after it\<close>
  "match_integer s =
     (let sg = (case s of [] \<Rightarrow> [] | x # _ \<Rightarrow> if x = CHR ''-'' then [x] else [])
      in case drop (length sg) s of
           [] \<Rightarrow> None
         | d # ds \<Rightarrow>
             if isdigit d then
               (if d = CHR ''0'' then Some (sg @ [d], ds)
                else Some (sg @ d # takeWhile isdigit ds, dropWhile isdigit ds))
             else None)"

definition int_of_integer :: "string \<Rightarrow> int" where
  \<comment> \<open>\<open>int\<close> of a text that the group above matched\<close>
  "int_of_integer t =
     (case t of
        [] \<Rightarrow> 0
      | x # ds \<Rightarrow> if x = CHR ''-'' then - digits_val ds else digits_val t)"

definition match_number :: "string \<Rightarrow> (pyval \<times> string) option" where
  \<comment> \<open>a match of \<open>(-?(?:0|[1-9][0-9]*))(\.[0-9]+)?([eE][-+]?[0-9]+)?\<close> at the start of
      the text: an \<open>int\<close> when only the first group matched, a \<open>float\<close> otherwise\<close>
  "match_number s =
     (case match_integer s of
        None \<Rightarrow> None
      | Some (integer, s1) \<Rightarrow>
          let (frac, s2) = match_fraction s1;
              (exp, s3) = match_exponent s2
          in if frac = [] \<and> exp = []
             then Some (PInt (int_of_integer integer), s3)
             else Some (PFloat (integer @ frac @ exp), s3))"

function scan_once :: "string \<Rightarrow> (pyval \<times> string) option"
  and json_array :: "string \<Rightarrow> pyval list \<Rightarrow> (pyval \<times> string) option"
  and json_object :: "string \<Rightarrow> (ustr \<times> pyval) list \<Rightarrow> (pyval \<times> string) option"
where
  \<comment> \<open>\<open>scan_once\<close> reads one value. \<open>json_array\<close> is the loop of \<open>JSONArray\<close>, at the start
      of an element, and \<open>json_object\<close> the loop of \<open>JSONObject\<close>, after the opening quote
      of a key; each holds what it has read. The two tests on the lengths are what the
      termination proof leans on.\<close>
  \<open>scan_once s =
     (case s of
        [] \<Rightarrow> None
      | c # cs \<Rightarrow>
          if c = CHR ''"'' then
            (case scanstring cs [] of
               None \<Rightarrow> None
             | Some (u, r) \<Rightarrow> Some (PStr u, r))
          else if c = CHR ''{'' then
            (case skip_ws cs of
               [] \<Rightarrow> None
             | d # ds \<Rightarrow>
                 if d = CHR ''}'' then Some (PDict [], ds)
                 else if d = CHR ''"'' then json_object ds []
                 else None)
          else if c = CHR ''['' then
            (case skip_ws cs of
               [] \<Rightarrow> None
             | d # ds \<Rightarrow>
                 if d = CHR '']'' then Some (PList [], ds)
                 else json_array (d # ds) [])
          else if c = CHR ''n'' \<and> prefix ''null'' s then Some (PNone, drop 4 s)
          else if c = CHR ''t'' \<and> prefix ''true'' s then Some (PBool True, drop 4 s)
          else if c = CHR ''f'' \<and> prefix ''false'' s then Some (PBool False, drop 5 s)
          else
            (case match_number s of
               Some m \<Rightarrow> Some m
             | None \<Rightarrow>
                 if c = CHR ''N'' \<and> prefix ''NaN'' s then Some (PFloat ''nan'', drop 3 s)
                 else if c = CHR ''I'' \<and> prefix ''Infinity'' s
                 then Some (PFloat ''inf'', drop 8 s)
                 else if c = CHR ''-'' \<and> prefix ''-Infinity'' s
                 then Some (PFloat ''-inf'', drop 9 s)
                 else None))\<close>
| \<open>json_array s elems =
     (case scan_once s of
        None \<Rightarrow> None
      | Some (v, r) \<Rightarrow>
          if length r < length s then
            (case skip_ws r of
               [] \<Rightarrow> None
             | d # ds \<Rightarrow>
                 if d = CHR '']'' then Some (PList (elems @ [v]), ds)
                 else if d = CHR '','' then json_array (skip_ws ds) (elems @ [v])
                 else None)
          else None)\<close>
| \<open>json_object s pairs =
     (case scanstring s [] of
        None \<Rightarrow> None
      | Some (key, r) \<Rightarrow>
          (case skip_ws r of
             [] \<Rightarrow> None
           | c # cs \<Rightarrow>
               if c = CHR '':'' then
                 (case scan_once (skip_ws cs) of
                    None \<Rightarrow> None
                  | Some (v, r2) \<Rightarrow>
                      if length r2 < length (skip_ws cs) then
                        (case skip_ws r2 of
                           [] \<Rightarrow> None
                         | d # ds \<Rightarrow>
                             if d = CHR ''}'' then Some (PDict (dict_of_pairs (pairs @ [(key, v)])), ds)
                             else if d = CHR '','' then
                               (case skip_ws ds of
                                  [] \<Rightarrow> None
                                | q # qs \<Rightarrow>
                                    if q = CHR ''"'' then json_object qs (pairs @ [(key, v)])
                                    else None)
                             else None)
                      else None)
               else None))\<close>
  by pat_completeness auto
termination
proof (relation "measure (\<lambda>x. case x of
          Inl s \<Rightarrow> 2 * length s
        | Inr (Inl (s, elems)) \<Rightarrow> 2 * length s + 1
        | Inr (Inr (s, pairs)) \<Rightarrow> 2 * length s + 1)", goal_cases)
  case 1
  show ?case by simp
next
  case (2 s c cs d ds)
  have "length (skip_ws cs) \<le> length cs"
    unfolding skip_ws_def by (rule length_dropWhile_le)
  with 2 show ?case by simp
next
  case (3 s c cs d ds)
  have "length (skip_ws cs) \<le> length cs"
    unfolding skip_ws_def by (rule length_dropWhile_le)
  with 3 show ?case by simp
next
  case (4 s elems)
  show ?case by simp
next
  case (5 s elems x v r d ds)
  have "length (skip_ws r) \<le> length r" "length (skip_ws ds) \<le> length ds"
    unfolding skip_ws_def by (rule length_dropWhile_le)+
  with 5 show ?case by simp
next
  case (6 s pairs x key r c cs)
  have "length (skip_ws r) \<le> length r" "length (skip_ws cs) \<le> length cs"
    unfolding skip_ws_def by (rule length_dropWhile_le)+
  moreover have "length r < length s"
    using 6 scanstring_shorter [of s "[]" key r] by simp
  ultimately show ?case using 6 by simp
next
  case (7 s pairs x key r c cs x2 v r2 d ds q qs)
  have "length (skip_ws r) \<le> length r" "length (skip_ws cs) \<le> length cs"
    "length (skip_ws r2) \<le> length r2" "length (skip_ws ds) \<le> length ds"
    unfolding skip_ws_def by (rule length_dropWhile_le)+
  moreover have "length r < length s"
    using 7 scanstring_shorter [of s "[]" key r] by simp
  ultimately show ?case using 7 by simp
qed

definition json_loads :: "string \<Rightarrow> exn + pyval" where
  \<comment> \<open>one value, with white space around it and nothing else\<close>
  "json_loads s =
     (case scan_once (skip_ws s) of
        None \<Rightarrow> Inl JSONDecodeError
      | Some (obj, r) \<Rightarrow> if skip_ws r = [] then Inr obj else Inl JSONDecodeError)"

section \<open>More string operations, for the line scan\<close>

fun str_contains :: "string \<Rightarrow> string \<Rightarrow> bool" where
  \<comment> \<open>\<open>sub in s\<close>\<close>
  "str_contains [] sub = (sub = [])"
| "str_contains (c # cs) sub = (prefix sub (c # cs) \<or> str_contains cs sub)"

function split_from :: "string \<Rightarrow> string \<Rightarrow> string \<Rightarrow> string list" where
  \<comment> \<open>the pieces of a text between the occurrences of a non-empty separator, taken from
      the left; the first argument is the piece being read\<close>
  "split_from cur [] sep = [cur]"
| "split_from cur (c # cs) sep =
     (if sep \<noteq> [] \<and> prefix sep (c # cs)
      then cur # split_from [] (drop (length sep) (c # cs)) sep
      else split_from (cur @ [c]) cs sep)"
  by pat_completeness auto
termination
  by (relation "measure (\<lambda>(cur, s, sep). length s)") auto

definition str_split :: "string \<Rightarrow> string \<Rightarrow> string list" where
  \<comment> \<open>\<open>s.split(sep)\<close> for a non-empty \<open>sep\<close>, which is how the source calls it\<close>
  "str_split s sep = split_from [] s sep"

fun split_once_from :: "string \<Rightarrow> string \<Rightarrow> string \<Rightarrow> string list" where
  "split_once_from cur [] sep = [cur]"
| "split_once_from cur (c # cs) sep =
     (if sep \<noteq> [] \<and> prefix sep (c # cs)
      then [cur, drop (length sep) (c # cs)]
      else split_once_from (cur @ [c]) cs sep)"

definition str_split_once :: "string \<Rightarrow> string \<Rightarrow> string list" where
  \<comment> \<open>\<open>s.split(sep, 1)\<close> for a non-empty \<open>sep\<close>\<close>
  "str_split_once s sep = split_once_from [] s sep"

definition linebreak :: "char \<Rightarrow> bool" where
  \<comment> \<open>the line boundaries of \<open>str.splitlines\<close> among the code points below 256\<close>
  "linebreak c =
     (let n = (of_char c :: nat)
      in (10 \<le> n \<and> n \<le> 13) \<or> (28 \<le> n \<and> n \<le> 30) \<or> n = 133)"

fun splitlines_from :: "string \<Rightarrow> string \<Rightarrow> string list" where
  "splitlines_from cur [] = (if cur = [] then [] else [cur])"
| "splitlines_from cur [c] =
     (if linebreak c then [cur] else [cur @ [c]])"
| "splitlines_from cur (c # d # cs) =
     (if c = CHR 0x0D \<and> d = CHR 0x0A then cur # splitlines_from [] cs
      else if linebreak c then cur # splitlines_from [] (d # cs)
      else splitlines_from (cur @ [c]) (d # cs))"

definition str_splitlines :: "string \<Rightarrow> string list" where
  \<comment> \<open>\<open>s.splitlines()\<close>: a carriage return and the line feed after it are one boundary,
      and a boundary at the end of the text opens no line\<close>
  "str_splitlines s = splitlines_from [] s"

fun words_from :: "string \<Rightarrow> string \<Rightarrow> string list" where
  "words_from cur [] = (if cur = [] then [] else [cur])"
| "words_from cur (c # cs) =
     (if isspace c then (if cur = [] then words_from [] cs else cur # words_from [] cs)
      else words_from (cur @ [c]) cs)"

definition str_words :: "string \<Rightarrow> string list" where
  \<comment> \<open>\<open>s.split()\<close>: the maximal runs of characters that are not white space\<close>
  "str_words s = words_from [] s"

definition getitem :: "'a list \<Rightarrow> int \<Rightarrow> exn + 'a" where
  \<comment> \<open>\<open>xs[i]\<close>\<close>
  "getitem xs i =
     (let n = int (length xs); j = (if i < 0 then i + n else i)
      in if 0 \<le> j \<and> j < n then Inr (xs ! nat j) else Inl IndexError)"

fun int_digits :: "string \<Rightarrow> bool" where
  \<comment> \<open>decimal digits, with single underscores between them\<close>
  "int_digits [] = False"
| "int_digits [c] = isdigit c"
| "int_digits (c # d # cs) =
     (isdigit c \<and> (if d = CHR ''_'' then int_digits cs else int_digits (d # cs)))"

definition py_int :: "string \<Rightarrow> exn + int" where
  \<comment> \<open>\<open>int(s)\<close>: white space around the numeral is dropped, a sign may come first\<close>
  "py_int s =
     (let t = str_strip s;
          sg = (case t of [] \<Rightarrow> [] | x # _ \<Rightarrow> if x = CHR ''-'' \<or> x = CHR ''+'' then [x] else []);
          ds = drop (length sg) t
      in if int_digits ds
         then Inr ((if sg = ''-'' then - 1 else 1) * digits_val (filter (\<lambda>c. c \<noteq> CHR ''_'') ds))
         else Inl ValueError)"

definition then_do :: "exn + 'a \<Rightarrow> ('a \<Rightarrow> exn + 'b) \<Rightarrow> exn + 'b" where
  \<comment> \<open>the next step of an expression, unless the step before it raised\<close>
  "then_do r f = (case r of Inl e \<Rightarrow> Inl e | Inr x \<Rightarrow> f x)"

section \<open>The title agent\<close>

definition get_default_titles :: "string \<Rightarrow> pyval list" where
  "get_default_titles topic =
     [PDict
        [(ustr ''title'', PStr (ustr (''The Ultimate Guide to '' @ topic))),
         (ustr ''seo_score'', PInt 8),
         (ustr ''reasoning'',
          PStr (ustr ''Ultimate guides perform well in search results (default fallback)''))],
      PDict
        [(ustr ''title'', PStr (ustr (''5 Proven Strategies for '' @ topic @ '' Success''))),
         (ustr ''seo_score'', PInt 7),
         (ustr ''reasoning'',
          PStr (ustr ''Number-based titles attract clicks (default fallback)''))]]"

definition has_all_fields :: "pydict \<Rightarrow> bool" where
  "has_all_fields d =
     (dict_has d (ustr ''title'') \<and> dict_has d (ustr ''seo_score'')
      \<and> dict_has d (ustr ''reasoning''))"

text \<open>
  One turn of the first loop of \<open>_parse_fallback_titles\<close>, on the pair of \<open>titles\<close> and
  \<open>current_title_data\<close>. An \<open>IndexError\<close> or a \<open>ValueError\<close> is handled as the \<open>except\<close>
  clause of its \<open>try\<close> says; any other exception would leave the loop.
\<close>

definition scan_line :: "pyval list \<times> pydict \<Rightarrow> string \<Rightarrow> exn + pyval list \<times> pydict" where
  \<open>scan_line st line =
     (let (titles, current_title_data) = st;
          line_strip = str_strip line
      in if str_contains line_strip ''"title":'' then
           let titles =
                 (if current_title_data \<noteq> [] \<and> has_all_fields current_title_data
                  then titles @ [PDict current_title_data] else titles);
               current_title_data = []
           in case then_do (getitem (str_split line_strip ''"title":'') 1)
                     (\<lambda>a. then_do (getitem (str_split a '','') 0)
                     (\<lambda>b. Inr (str_strip (str_replace ''"'' [] b)))) of
                Inr t \<Rightarrow> Inr (titles, dict_set current_title_data (ustr ''title'') (PStr (ustr t)))
              | Inl IndexError \<Rightarrow> Inr (titles, current_title_data)
              | Inl e \<Rightarrow> Inl e
         else if str_contains line_strip ''"seo_score":'' \<and> current_title_data \<noteq> [] then
           case then_do (getitem (str_split line_strip ''"seo_score":'') 1)
                  (\<lambda>a. then_do (getitem (str_split a '','') 0)
                  (\<lambda>b. py_int (str_strip b))) of
             Inr n \<Rightarrow> Inr (titles, dict_set current_title_data (ustr ''seo_score'') (PInt n))
           | Inl IndexError \<Rightarrow>
               Inr (titles, dict_set current_title_data (ustr ''seo_score'') (PInt 7))
           | Inl ValueError \<Rightarrow>
               Inr (titles, dict_set current_title_data (ustr ''seo_score'') (PInt 7))
           | Inl e \<Rightarrow> Inl e
         else if str_contains line_strip ''"reasoning":'' \<and> current_title_data \<noteq> [] then
           case then_do (getitem (str_split line_strip ''"reasoning":'') 1)
                  (\<lambda>a. Inr (str_strip (str_replace ''}'' [] (str_replace ''"'' [] a)))) of
             Inr t \<Rightarrow> Inr (titles, dict_set current_title_data (ustr ''reasoning'') (PStr (ustr t)))
           | Inl IndexError \<Rightarrow> Inr (titles, current_title_data)
           | Inl e \<Rightarrow> Inl e
         else Inr (titles, current_title_data))\<close>

fun scan_lines :: "pyval list \<times> pydict \<Rightarrow> string list \<Rightarrow> exn + pyval list \<times> pydict" where
  "scan_lines st [] = Inr st"
| "scan_lines st (line # lines) = then_do (scan_line st line) (\<lambda>st'. scan_lines st' lines)"

definition loose_line :: "pyval list \<Rightarrow> string \<Rightarrow> exn + pyval list" where
  \<comment> \<open>one turn of the second loop of \<open>_parse_fallback_titles\<close>\<close>
  \<open>loose_line titles line =
     (if str_startswith (str_strip line) ''Title:'' \<or> str_startswith (str_strip line) ''"title":''
      then
        then_do (getitem (str_split_once line '':'') (- 1))
          (\<lambda>part.
             let title_text = str_replace '','' [] (str_replace ''"'' [] (str_strip part))
             in if 10 < length title_text \<and> length title_text < 100
                then Inr (titles @
                       [PDict
                          [(ustr ''title'', PStr (ustr title_text)),
                           (ustr ''seo_score'', PInt 7),
                           (ustr ''reasoning'',
                            PStr (ustr ''Fallback parsed title with good potential''))]])
                else Inr titles)
      else Inr titles)\<close>

fun loose_lines :: "pyval list \<Rightarrow> string list \<Rightarrow> exn + pyval list" where
  "loose_lines titles [] = Inr titles"
| "loose_lines titles (line # lines) =
     then_do (loose_line titles line) (\<lambda>titles'. loose_lines titles' lines)"

definition parse_fallback_titles :: "string \<Rightarrow> exn + pyval list" where
  "parse_fallback_titles content =
     then_do (scan_lines ([], []) (str_split content [CHR 0x0A]))
       (\<lambda>(titles, current_title_data).
          let titles =
                (if current_title_data \<noteq> [] \<and> has_all_fields current_title_data
                 then titles @ [PDict current_title_data] else titles)
          in then_do (if titles = [] then loose_lines titles (str_splitlines content)
                      else Inr titles)
               (\<lambda>titles. Inr (take 5 titles)))"

text \<open>
  \<open>generate_titles\<close> from the answer of the model on: the second argument is what
  \<open>self.llm.invoke\<close> did, the exception it raised or the \<open>content\<close> of its response.
  The inner \<open>try\<close> handles \<open>JSONDecodeError\<close> only, the outer one every exception.
\<close>

definition generate_titles :: "string \<Rightarrow> exn + string \<Rightarrow> exn + pyval list" where
  "generate_titles topic response =
     (case then_do response
             (\<lambda>raw_llm_response_content.
                let content_str = extract_payload Array raw_llm_response_content
                in case json_loads (clean_json_string content_str) of
                     Inr parsed_output \<Rightarrow>
                       (case parsed_output of
                          PList titles \<Rightarrow> Inr titles
                        | _ \<Rightarrow> Inr (get_default_titles topic))
                   | Inl JSONDecodeError \<Rightarrow>
                       then_do (parse_fallback_titles raw_llm_response_content)
                         (\<lambda>fallback_titles.
                            if fallback_titles \<noteq> [] then Inr fallback_titles
                            else Inr (get_default_titles topic))
                   | Inl e \<Rightarrow> Inl e) of
        Inr titles \<Rightarrow> Inr titles
      | Inl e \<Rightarrow> Inr (get_default_titles topic))"

section \<open>The content agent\<close>

definition extract_hashtags :: "string \<Rightarrow> string list" where
  "extract_hashtags content =
     (let words = str_words content;
          hashtags = filter (\<lambda>word. str_startswith word ''#'') words
      in take 10 hashtags)"

definition get_default_content :: "string \<Rightarrow> string \<Rightarrow> string \<Rightarrow> pyval" where
  "get_default_content title topic content_format =
     PDict
       [(ustr ''content'',
         PStr (ustr (''Exploring '' @ topic @ '': '' @ title @ [CHR 0x0A, CHR 0x0A]
           @ ''This is an engaging piece about '' @ topic
           @ '' that provides valuable insights for our audience. Stay tuned for more updates!''))),
        (ustr ''hashtags'',
         PList [PStr (ustr ''#content''), PStr (ustr ''#strategy''), PStr (ustr ''#marketing'')]),
        (ustr ''engagement_score'', PInt 6),
        (ustr ''platform_optimization'',
         PStr (ustr (''Basic optimization for '' @ content_format
           @ '' (default fallback content).''))),
        (ustr ''cta'', PStr (ustr ''What are your thoughts on this topic?'')),
        (ustr ''estimated_reach'',
         PStr (ustr ''Moderate reach potential (default fallback content).''))]"

definition parse_failure_content :: "string \<Rightarrow> string \<Rightarrow> pyval" where
  \<comment> \<open>the record that the \<open>except json.JSONDecodeError\<close> clause of \<open>generate_content\<close>
      returns\<close>
  "parse_failure_content content_format raw_llm_response_content =
     PDict
       [(ustr ''content'', PStr (ustr raw_llm_response_content)),
        (ustr ''hashtags'', PList (map (\<lambda>h. PStr (ustr h)) (extract_hashtags raw_llm_response_content))),
        (ustr ''engagement_score'', PInt 5),
        (ustr ''platform_optimization'',
         PStr (ustr (''Failed to parse structured output for '' @ content_format
           @ ''. Raw LLM output provided.''))),
        (ustr ''cta'', PStr (ustr ''Review content manually.'')),
        (ustr ''estimated_reach'', PStr (ustr ''Unknown (parsing error)''))]"

definition generate_content ::
  "string \<Rightarrow> string \<Rightarrow> string \<Rightarrow> exn + string \<Rightarrow> exn + pyval" where
  "generate_content title topic content_format response =
     (case then_do response
             (\<lambda>raw_llm_response_content.
                let content_str = extract_payload Object raw_llm_response_content
                in case json_loads (clean_json_string content_str) of
                     Inr parsed_output \<Rightarrow> Inr parsed_output
                   | Inl JSONDecodeError \<Rightarrow>
                       Inr (parse_failure_content content_format raw_llm_response_content)
                   | Inl e \<Rightarrow> Inl e) of
        Inr record \<Rightarrow> Inr record
      | Inl e \<Rightarrow> Inr (get_default_content title topic content_format))"

section \<open>Reading the returned records\<close>

definition field :: "pyval \<Rightarrow> string \<Rightarrow> pyval option" where
  \<comment> \<open>the value that a record holds for a key; \<open>None\<close> when the value is not a \<open>dict\<close> or
      has no such key\<close>
  "field v k = (case v of PDict d \<Rightarrow> map_of d (ustr k) | _ \<Rightarrow> None)"

definition claimed_title_value :: "string \<Rightarrow> string" where
  \<comment> \<open>the title value in the words of claim C10: the text between the marker and the first
      comma after it on the line, without its double quotes, and trimmed\<close>
  \<open>claimed_title_value line_strip =
     (let after = drop (nat (str_find line_strip ''"title":'') + length ''"title":'') line_strip
      in str_strip (filter (\<lambda>c. c \<noteq> CHR ''"'') (takeWhile (\<lambda>c. c \<noteq> CHR '','') after)))\<close>

section \<open>A response without a payload, in \<open>generate_content\<close>\<close>

lemma no_json_extract: "extract_payload Object ''no json here at all'' = ''no json here at all''"
  by code_simp

lemma no_json_loads: "json_loads (clean_json_string ''no json here at all'') = Inl JSONDecodeError"
  by code_simp

lemma no_json_hashtags: "extract_hashtags ''no json here at all'' = []"
  by code_simp

text \<open>
  Against claim C1 as it is stated: on the response \<open>no json here at all\<close> the function
  \<open>generate_content\<close> returns the record of its \<open>except json.JSONDecodeError\<close> clause,
  whose hashtags are the empty list and whose engagement score is 5, not the default
  record.
\<close>

theorem C1_counterexample:
  "generate_content ''T'' ''AI'' ''Blog Post'' (Inr ''no json here at all'')
     = Inr (parse_failure_content ''Blog Post'' ''no json here at all'')
   \<and> field (parse_failure_content ''Blog Post'' ''no json here at all'') ''hashtags''
       = Some (PList [])
   \<and> field (parse_failure_content ''Blog Post'' ''no json here at all'') ''engagement_score''
       = Some (PInt 5)"
  by (simp add: generate_content_def then_do_def no_json_extract no_json_loads
      parse_failure_content_def no_json_hashtags field_def ustr_def)

section \<open>A payload of the wrong shape\<close>

text \<open>
  Claim C3, at the input where the code departs from it: the response \<open>[1, 2]\<close> parses, its
  value is a list and not a mapping, and \<open>generate_content\<close> returns that list, where
  \<open>generate_titles\<close> tests the shape of what it parsed and falls back.
\<close>

theorem C3_content_returns_list:
  "generate_content ''T'' ''AI'' ''Blog Post'' (Inr ''[1, 2]'') = Inr (PList [PInt 1, PInt 2])"
  by code_simp

section \<open>An opening delimiter without a closing one\<close>

text \<open>
  Claim C4, at the input where the code departs from it: the response \<open>[abc\<close> has an opening
  bracket and no closing one. \<open>end_idx\<close> is \<open>rfind\<close> plus one, so it is 0 and never \<open>-1\<close>;
  the slice from index 0 to index 0 is taken, and the extraction returns the empty text.
\<close>

theorem C4_open_without_close:
  "extract_payload Array ''[abc'' = []"
  by code_simp

section \<open>The repair of scenario 2\<close>

text \<open>
  Against claim C5 as it is stated: the repaired text does not parse.
\<close>

theorem C5_counterexample:
  \<open>json_loads (clean_json_string ''{title: 'X', seo_score: 7,}'') = Inl JSONDecodeError\<close>
  by code_simp

text \<open>
  Claim C5, amended. \<open>_clean_json_string\<close> removes the trailing comma of
  \<open>{title: 'X', seo_score: 7,}\<close> and puts the keys \<open>title\<close> and \<open>seo_score\<close> in double
  quotes; it leaves the value \<open>'X'\<close> in its single quotes, and for that reason
  \<open>json.loads\<close> raises \<open>JSONDecodeError\<close> on the result.
\<close>

theorem C5_repair_scenario:
  \<open>clean_json_string ''{title: 'X', seo_score: 7,}'' = ''{"title": 'X', "seo_score": 7}''
   \<and> json_loads ''{"title": 'X', "seo_score": 7}'' = Inl JSONDecodeError\<close>
  by code_simp

section \<open>No exception leaves the two generators\<close>

text \<open>
  Claim C9. When the call of the model raises, whatever the exception, \<open>generate_titles\<close>
  returns the two default candidates, built from the topic alone, with the scores 8 and 7;
  and whatever the call of the model does, \<open>generate_titles\<close> and \<open>generate_content\<close>
  return a value and raise nothing.
\<close>

theorem C9_llm_error_gives_defaults:
  "generate_titles topic (Inl e) = Inr (get_default_titles topic)
   \<and> get_default_titles topic =
       [PDict
          [(ustr ''title'', PStr (ustr (''The Ultimate Guide to '' @ topic))),
           (ustr ''seo_score'', PInt 8),
           (ustr ''reasoning'',
            PStr (ustr ''Ultimate guides perform well in search results (default fallback)''))],
        PDict
          [(ustr ''title'', PStr (ustr (''5 Proven Strategies for '' @ topic @ '' Success''))),
           (ustr ''seo_score'', PInt 7),
           (ustr ''reasoning'',
            PStr (ustr ''Number-based titles attract clicks (default fallback)''))]]
   \<and> (\<exists>titles. generate_titles topic response = Inr titles)
   \<and> (\<exists>record. generate_content title topic content_format response = Inr record)"
  by (auto simp: generate_titles_def generate_content_def then_do_def get_default_titles_def
      split: sum.splits)

section \<open>The extraction applied twice\<close>

lemma strip_fixed: "s = [] \<or> (\<not> isspace (hd s) \<and> \<not> isspace (last s)) \<Longrightarrow> str_strip s = s"
proof (cases "s = []")
  case True
  then show ?thesis by (simp add: str_strip_def)
next
  case False
  assume "s = [] \<or> (\<not> isspace (hd s) \<and> \<not> isspace (last s))"
  with False have h: "\<not> isspace (hd s)" and l: "\<not> isspace (last s)" by auto
  from h have a: "dropWhile isspace s = s" by (simp add: dropWhile_eq_self_iff)
  from False l have "\<not> isspace (hd (rev s))" by (simp add: hd_rev)
  then have "dropWhile isspace (rev s) = rev s" by (simp add: dropWhile_eq_self_iff)
  with a show ?thesis by (simp add: str_strip_def)
qed

lemma strip_ends:
  assumes ne: "str_strip s \<noteq> []"
  shows "\<not> isspace (hd (str_strip s)) \<and> \<not> isspace (last (str_strip s))"
proof -
  let ?a = "dropWhile isspace s"
  let ?b = "dropWhile isspace (rev ?a)"
  have eq: "str_strip s = rev ?b" by (simp add: str_strip_def)
  with ne have bne: "?b \<noteq> []" by simp
  then have hb: "\<not> isspace (hd ?b)" by (rule hd_dropWhile)
  have l: "last (str_strip s) = hd ?b" by (simp add: eq last_rev)
  have "?a = [] \<Longrightarrow> ?b = []" by (metis dropWhile.simps(1) rev.simps(1))
  with bne have ane: "?a \<noteq> []" by blast
  then have ha: "\<not> isspace (hd ?a)" by (rule hd_dropWhile)
  have "rev (rev ?a) = rev (takeWhile isspace (rev ?a) @ ?b)"
    by (simp only: takeWhile_dropWhile_id)
  then have "?a = rev ?b @ rev (takeWhile isspace (rev ?a))"
    by (simp only: rev_rev_ident rev_append)
  then have "hd ?a = hd (rev ?b @ rev (takeWhile isspace (rev ?a)))" by simp
  also have "\<dots> = hd (rev ?b)" using bne by simp
  finally have "hd ?a = hd (str_strip s)" by (simp add: eq)
  with ha hb l show ?thesis by simp
qed

lemma strip_idem: "str_strip (str_strip s) = str_strip s"
  using strip_ends [of s] by (intro strip_fixed) blast

lemma find_from_char:
  "find_from [c] s i = (if c \<in> set s then int (i + length (takeWhile (\<lambda>x. x \<noteq> c) s)) else - 1)"
  by (induction s arbitrary: i) auto

lemma rfind_from_char:
  "(rfind_from [c] s i = - 1 \<and> c \<notin> set s)
   \<or> (\<exists>j<length s. rfind_from [c] s i = int (i + j) \<and> s ! j = c)"
proof (induction s arbitrary: i)
  case Nil
  then show ?case by simp
next
  case (Cons a s)
  from Cons [of "Suc i"] show ?case
  proof
    assume "rfind_from [c] s (Suc i) = - 1 \<and> c \<notin> set s"
    then show ?thesis by (auto simp: Let_def)
  next
    assume "\<exists>j<length s. rfind_from [c] s (Suc i) = int (Suc i + j) \<and> s ! j = c"
    then obtain j where j: "j < length s" "rfind_from [c] s (Suc i) = int (Suc i + j)" "s ! j = c"
      by blast
    then have "rfind_from [c] (a # s) i = int (i + Suc j)" by (simp add: Let_def)
    with j show ?thesis by (intro disjI2 exI [of _ "Suc j"]) simp
  qed
qed


lemma delims:
  obtains oc cc where "open_delim sh = [oc]" "close_delim sh = [cc]"
    "\<not> isspace oc" "\<not> isspace cc" "oc \<noteq> CHR ''`''"
  by (cases sh) (auto simp: isspace_def)

lemma extract_strip: "extract_payload sh (str_strip raw) = extract_payload sh raw"
  by (simp add: extract_payload_def strip_idem)

lemma extract_fixed_empty: "extract_payload sh [] = []"
  by (cases sh) (simp_all add: extract_payload_def str_strip_def str_startswith_def
      str_endswith_def str_find_def str_rfind_def Let_def)

lemma extract_fixed_delimited:
  assumes p: "prefix (open_delim sh) t" and q: "suffix (close_delim sh) t"
  shows "extract_payload sh t = t"
proof -
  obtain oc cc where d: "open_delim sh = [oc]" "close_delim sh = [cc]"
    "\<not> isspace oc" "\<not> isspace cc" "oc \<noteq> CHR ''`''"
    by (rule delims)
  from p d obtain t' where t': "t = oc # t'" by (auto simp: prefix_def)
  from q d obtain t'' where t'': "t = t'' @ [cc]" by (auto simp: suffix_def)
  from t' have h: "hd t = oc" by simp
  from t'' have l: "last t = cc" by simp
  from h l d have s: "str_strip t = t" by (intro strip_fixed) simp
  from t' d have nf: "\<not> str_startswith t ''```json''" by (simp add: str_startswith_def)
  from s nf p q show ?thesis
    by (simp add: extract_payload_def str_startswith_def str_endswith_def)
qed

lemma slice_delimited:
  assumes a: "a < length t" "t ! a = oc" and j: "j < length t" "t ! j = cc"
  shows "str_slice t (int a) (int j + 1) = []
         \<or> (prefix [oc] (str_slice t (int a) (int j + 1))
            \<and> suffix [cc] (str_slice t (int a) (int j + 1)))"
proof (cases "a \<le> j")
  case False
  then show ?thesis using a j by (simp add: str_slice_def slice_index_def)
next
  case True
  let ?k = "Suc j - a"
  let ?r = "take ?k (drop a t)"
  have eq: "str_slice t (int a) (int j + 1) = ?r"
    using a j by (simp add: str_slice_def slice_index_def nat_add_distrib)
  have len: "length ?r = ?k" using True j by simp
  then have ne: "?r \<noteq> []" using True by auto
  have "hd ?r = ?r ! 0" using ne by (simp add: hd_conv_nth)
  also have "\<dots> = t ! a" using True a by simp
  finally have h: "hd ?r = oc" using a by simp
  have "last ?r = ?r ! (?k - 1)" using ne len by (simp add: last_conv_nth)
  also have "\<dots> = t ! j" using True j by simp
  finally have l: "last ?r = cc" using j by simp
  from ne h have "prefix [oc] ?r" by (cases ?r) auto
  moreover from ne l have "suffix [cc] ?r"
    by (metis append_butlast_last_id suffixI)
  ultimately show ?thesis by (simp only: eq) blast
qed

lemma takeWhile_neq_less: "c \<in> set t \<Longrightarrow> length (takeWhile (\<lambda>x. x \<noteq> c) t) < length t"
  by (induction t) auto

lemma extract_unfenced:
  "\<not> str_startswith (str_strip raw) ''```json'' \<Longrightarrow>
   extract_payload sh raw =
     (if prefix (open_delim sh) (str_strip raw) \<and> suffix (close_delim sh) (str_strip raw)
      then str_strip raw
      else if str_find (str_strip raw) (open_delim sh) \<noteq> - 1
              \<and> str_rfind (str_strip raw) (close_delim sh) + 1 \<noteq> - 1
      then str_slice (str_strip raw) (str_find (str_strip raw) (open_delim sh))
             (str_rfind (str_strip raw) (close_delim sh) + 1)
      else str_strip raw)"
  by (simp add: extract_payload_def Let_def str_startswith_def str_endswith_def)

text \<open>
  Against claim C7 as it is stated: a fenced response whose content has prose around the
  payload. The first extraction strips the fences and keeps the prose; the second one,
  finding no fence, takes the span of the brackets.
\<close>

theorem C7_counterexample:
  "extract_payload Array (''```json'' @ [CHR 0x0A] @ ''Here: [1]'' @ [CHR 0x0A] @ ''```'')
     = ''Here: [1]''
   \<and> extract_payload Array
       (extract_payload Array (''```json'' @ [CHR 0x0A] @ ''Here: [1]'' @ [CHR 0x0A] @ ''```''))
     = ''[1]''"
  by code_simp

text \<open>
  Claim C7, amended. The extraction applied to its own output yields that output, for
  either shape and for every response that, once trimmed, does not start with the fence
  \<open>```json\<close>, and also for every fenced response from which the extraction yields a text
  that starts with the opening delimiter and ends with the closing one.
\<close>

theorem C7_extract_idempotent_unfenced:
  assumes "\<not> str_startswith (str_strip raw) ''```json''
           \<or> (prefix (open_delim sh) (extract_payload sh raw)
              \<and> suffix (close_delim sh) (extract_payload sh raw))"
  shows "extract_payload sh (extract_payload sh raw) = extract_payload sh raw"
proof -
  obtain oc cc where d: "open_delim sh = [oc]" "close_delim sh = [cc]"
    "\<not> isspace oc" "\<not> isspace cc" "oc \<noteq> CHR ''`''"
    by (rule delims)
  define t where "t = str_strip raw"
  define e where "e = extract_payload sh raw"
  have et: "extract_payload sh t = e"
    unfolding t_def e_def by (rule extract_strip)
  show ?thesis
  proof (cases "prefix (open_delim sh) e \<and> suffix (close_delim sh) e")
    case True
    then show ?thesis unfolding e_def by (simp add: extract_fixed_delimited)
  next
    case False
    with assms have nf: "\<not> str_startswith (str_strip raw) ''```json''"
      unfolding e_def by blast
    note u = extract_unfenced [OF nf, of sh, folded t_def e_def, unfolded d]
    have "e = t \<or> e = [] \<or> (prefix [oc] e \<and> suffix [cc] e)"
    proof (cases "prefix [oc] t \<and> suffix [cc] t")
      case True
      with u show ?thesis by simp
    next
      case nd: False
      show ?thesis
      proof (cases "oc \<in> set t")
        case False
        with u nd show ?thesis by (simp add: str_find_def find_from_char)
      next
        case True
        let ?a = "length (takeWhile (\<lambda>x. x \<noteq> oc) t)"
        have fa: "str_find t [oc] = int ?a"
          using True by (simp add: str_find_def find_from_char)
        have alt: "?a < length t"
          using True by (rule takeWhile_neq_less)
        then have ata: "t ! ?a = oc"
          using nth_length_takeWhile [of "\<lambda>x. x \<noteq> oc" t] by simp
        from rfind_from_char [of cc t 0]
        show ?thesis
        proof
          assume "rfind_from [cc] t 0 = - 1 \<and> cc \<notin> set t"
          then have r: "str_rfind t [cc] = - 1" by (simp add: str_rfind_def)
          from u nd have "e = str_slice t (int ?a) 0"
            by (simp only: fa r) simp
          then have "e = []" by (simp add: str_slice_def slice_index_def)
          then show ?thesis by blast
        next
          assume "\<exists>j<length t. rfind_from [cc] t 0 = int (0 + j) \<and> t ! j = cc"
          then obtain j where j: "j < length t" "str_rfind t [cc] = int j" "t ! j = cc"
            by (auto simp: str_rfind_def)
          from u nd have "e = str_slice t (int ?a) (int j + 1)"
            by (simp only: fa j(2)) simp
          with slice_delimited [OF alt ata j(1) j(3)] show ?thesis by simp
        qed
      qed
    qed
    then consider "e = t" | "e = []" | "prefix [oc] e \<and> suffix [cc] e" by blast
    then have "extract_payload sh e = e"
    proof cases
      case 1
      with et show ?thesis by simp
    next
      case 2
      then show ?thesis by (simp add: extract_fixed_empty)
    next
      case 3
      with d show ?thesis by (simp add: extract_fixed_delimited)
    qed
    then show ?thesis unfolding e_def .
  qed
qed

theorem C7_extract_idempotent_unfenced_witness:
  "extract_payload Array (extract_payload Array ''Sure: [1, 2] ok'')
     = extract_payload Array ''Sure: [1, 2] ok''
   \<and> extract_payload Array ''Sure: [1, 2] ok'' = ''[1, 2]''"
proof -
  have "\<not> str_startswith (str_strip ''Sure: [1, 2] ok'') ''```json''"
    by code_simp
  then have h: "\<not> str_startswith (str_strip ''Sure: [1, 2] ok'') ''```json''
      \<or> (prefix (open_delim Array) (extract_payload Array ''Sure: [1, 2] ok'')
         \<and> suffix (close_delim Array) (extract_payload Array ''Sure: [1, 2] ok''))"
    by (rule disjI1)
  have "extract_payload Array ''Sure: [1, 2] ok'' = ''[1, 2]''"
    by code_simp
  with C7_extract_idempotent_unfenced [OF h] show ?thesis by simp
qed

section \<open>The record that \<open>generate_content\<close> returns after a parse failure\<close>

lemma strip_subset: "set (str_strip s) \<subseteq> set s"
proof -
  have "set (dropWhile isspace (rev (dropWhile isspace s))) \<subseteq> set (rev (dropWhile isspace s))"
    by (auto dest: set_dropWhileD)
  also have "\<dots> \<subseteq> set s" by (auto dest: set_dropWhileD)
  finally show ?thesis by (simp add: str_strip_def)
qed

lemma extract_without_brace:
  assumes "\<not> str_startswith (str_strip raw) ''```json''" and "CHR ''{'' \<notin> set raw"
  shows "extract_payload Object raw = str_strip raw"
proof -
  from assms(2) strip_subset [of raw] have n: "CHR ''{'' \<notin> set (str_strip raw)" by blast
  then have "\<not> prefix ''{'' (str_strip raw)" by (auto simp: prefix_def)
  moreover from n have "str_find (str_strip raw) ''{'' = - 1"
    by (simp add: str_find_def find_from_char)
  ultimately show ?thesis
    using extract_unfenced [OF assms(1), of Object] by simp
qed

lemma failure_not_default:
  "parse_failure_content content_format raw \<noteq> get_default_content title topic content_format"
  by (simp add: parse_failure_content_def get_default_content_def)

text \<open>
  Claim C1, amended. Whenever \<open>json.loads\<close> raises \<open>JSONDecodeError\<close> on the extracted and
  repaired payload of the response, \<open>generate_content\<close> returns the record of its
  \<open>except json.JSONDecodeError\<close> clause and not the default record: its content is the
  response, its hashtags are the first ten of the words of the response (the pieces of
  \<open>str.split()\<close>) that start with \<open>#\<close>, and its engagement score is 5. A response with no
  \<open>```json\<close> fence and no \<open>{\<close> is extracted as the stripped response; for
  \<open>no json here at all\<close> the extraction returns the text unchanged and \<open>json.loads\<close>
  raises. The default record, with the three hashtags \<open>#content\<close>, \<open>#strategy\<close>,
  \<open>#marketing\<close> and the score 6, is what is returned when the call of the model raises.
\<close>

theorem C1_parse_failure_record:
  assumes "json_loads (clean_json_string (extract_payload Object raw)) = Inl JSONDecodeError"
  shows "generate_content title topic content_format (Inr raw)
       = Inr (parse_failure_content content_format raw)
   \<and> generate_content title topic content_format (Inr raw)
       \<noteq> Inr (get_default_content title topic content_format)
   \<and> field (parse_failure_content content_format raw) ''content'' = Some (PStr (ustr raw))
   \<and> field (parse_failure_content content_format raw) ''hashtags''
       = Some (PList (map (\<lambda>h. PStr (ustr h))
           (take 10 (filter (\<lambda>word. prefix ''#'' word) (str_words raw)))))
   \<and> field (parse_failure_content content_format raw) ''engagement_score'' = Some (PInt 5)
   \<and> (\<not> str_startswith (str_strip raw) ''```json'' \<and> CHR ''{'' \<notin> set raw
        \<longrightarrow> extract_payload Object raw = str_strip raw)
   \<and> extract_payload Object ''no json here at all'' = ''no json here at all''
   \<and> json_loads (clean_json_string ''no json here at all'') = Inl JSONDecodeError
   \<and> generate_content title topic content_format (Inl e)
       = Inr (get_default_content title topic content_format)
   \<and> field (get_default_content title topic content_format) ''hashtags''
       = Some (PList [PStr (ustr ''#content''), PStr (ustr ''#strategy''), PStr (ustr ''#marketing'')])
   \<and> field (get_default_content title topic content_format) ''engagement_score''
       = Some (PInt 6)"
proof -
  have g: "generate_content title topic content_format (Inr raw)
       = Inr (parse_failure_content content_format raw)"
    using assms by (simp add: generate_content_def then_do_def)
  have f: "field (parse_failure_content content_format raw) ''content'' = Some (PStr (ustr raw))"
    "field (parse_failure_content content_format raw) ''hashtags''
       = Some (PList (map (\<lambda>h. PStr (ustr h))
           (take 10 (filter (\<lambda>word. prefix ''#'' word) (str_words raw)))))"
    "field (parse_failure_content content_format raw) ''engagement_score'' = Some (PInt 5)"
    by (simp_all add: parse_failure_content_def field_def ustr_def extract_hashtags_def
        str_startswith_def)
  have d: "generate_content title topic content_format (Inl e)
       = Inr (get_default_content title topic content_format)"
    "field (get_default_content title topic content_format) ''hashtags''
       = Some (PList [PStr (ustr ''#content''), PStr (ustr ''#strategy''), PStr (ustr ''#marketing'')])"
    "field (get_default_content title topic content_format) ''engagement_score''
       = Some (PInt 6)"
    by (simp_all add: generate_content_def then_do_def get_default_content_def field_def ustr_def)
  from g f d failure_not_default [of content_format raw title topic]
    extract_without_brace [of raw] no_json_extract no_json_loads
  show ?thesis by simp
qed

theorem C1_parse_failure_record_witness:
  "generate_content ''T'' ''AI'' ''Blog Post'' (Inr ''no json #one at #two all'')
       = Inr (parse_failure_content ''Blog Post'' ''no json #one at #two all'')
   \<and> field (parse_failure_content ''Blog Post'' ''no json #one at #two all'') ''hashtags''
       = Some (PList [PStr (ustr ''#one''), PStr (ustr ''#two'')])
   \<and> field (parse_failure_content ''Blog Post'' ''no json #one at #two all'') ''engagement_score''
       = Some (PInt 5)
   \<and> extract_payload Object ''no json #one at #two all'' = ''no json #one at #two all''"
proof -
  let ?raw = "''no json #one at #two all''"
  have h: "json_loads (clean_json_string (extract_payload Object ?raw)) = Inl JSONDecodeError"
    by code_simp
  have w: "str_words ?raw = [''no'', ''json'', ''#one'', ''at'', ''#two'', ''all'']"
    by code_simp
  have t: "take 10 (filter (\<lambda>word. prefix ''#'' word)
      [''no'', ''json'', ''#one'', ''at'', ''#two'', ''all'']) = [''#one'', ''#two'']"
    by simp
  have n: "\<not> str_startswith (str_strip ?raw) ''```json'' \<and> CHR ''{'' \<notin> set ?raw"
    by code_simp
  have s: "str_strip ?raw = ?raw"
    by code_simp
  note th = C1_parse_failure_record [OF h, of "''T''" "''AI''" "''Blog Post''"]
  from th have 1: "generate_content ''T'' ''AI'' ''Blog Post'' (Inr ?raw)
       = Inr (parse_failure_content ''Blog Post'' ?raw)"
    by (rule conjunct1)
  from th have "field (parse_failure_content ''Blog Post'' ?raw) ''hashtags''
       = Some (PList (map (\<lambda>h. PStr (ustr h))
           (take 10 (filter (\<lambda>word. prefix ''#'' word) (str_words ?raw)))))"
    by blast
  then have 2: "field (parse_failure_content ''Blog Post'' ?raw) ''hashtags''
       = Some (PList [PStr (ustr ''#one''), PStr (ustr ''#two'')])"
    by (simp only: w t list.map)
  from th have 3: "field (parse_failure_content ''Blog Post'' ?raw) ''engagement_score''
       = Some (PInt 5)"
    by blast
  from th n have "extract_payload Object ?raw = str_strip ?raw"
    by blast
  then have 4: "extract_payload Object ?raw = ?raw"
    by (simp only: s)
  from 1 2 3 4 show ?thesis by blast
qed

section \<open>The line scan of \<open>_parse_fallback_titles\<close>\<close>

lemma split_from_not_Nil: "split_from cur s sep \<noteq> []"
  by (induction cur s sep rule: split_from.induct) auto

lemma str_contains_append: "str_contains x sub \<Longrightarrow> str_contains (x @ y) sub"
proof (induction x)
  case Nil
  then show ?case by (cases y) auto
next
  case (Cons a x)
  show ?case
  proof (cases "prefix sub (a # x)")
    case True
    then have "prefix sub ((a # x) @ y)" by (rule prefix_prefix)
    then show ?thesis by simp
  next
    case False
    with Cons show ?thesis by simp
  qed
qed

lemma prefix_of_longer:
  assumes "prefix sep (pre @ sep @ t)" and "pre \<noteq> []"
  shows "prefix sep (pre @ butlast sep)"
proof (cases "sep = []")
  case True
  then show ?thesis by simp
next
  case False
  have "prefix (pre @ butlast sep) (pre @ sep @ t)"
    using False by (metis append_butlast_last_id prefix_def append.assoc same_prefix_prefix)
  with assms(1) have "prefix sep (pre @ butlast sep) \<or> prefix (pre @ butlast sep) sep"
    by (rule prefix_same_cases)
  moreover have "length sep \<le> length (pre @ butlast sep)"
    using assms(2) False by (cases pre) auto
  ultimately show ?thesis
    by (metis prefix_length_le prefix_order.eq_iff prefix_length_prefix prefix_order.refl)
qed

lemma split_from_first:
  assumes "sep \<noteq> []" and "\<not> str_contains (pre @ butlast sep) sep"
  shows "split_from cur (pre @ sep @ t) sep = (cur @ pre) # split_from [] t sep"
  using assms(2)
proof (induction pre arbitrary: cur)
  case Nil
  from assms(1) obtain c cs where s: "sep = c # cs" by (cases sep) auto
  then show ?case by simp
next
  case (Cons p pre)
  from Cons.prems have np: "\<not> prefix sep ((p # pre) @ butlast sep)"
    and nc: "\<not> str_contains (pre @ butlast sep) sep" by auto
  from np prefix_of_longer [of sep "p # pre" t] have "\<not> prefix sep (p # pre @ sep @ t)"
    by auto
  with Cons.IH [OF nc, of "cur @ [p]"] show ?case by simp
qed

lemma split_from_none:
  assumes "sep \<noteq> []" and "\<not> str_contains s sep"
  shows "split_from cur s sep = [cur @ s]"
  using assms(2) by (induction s arbitrary: cur) auto

lemma str_contains_self: "str_contains (pre @ sep @ t) sep"
proof (induction pre)
  case Nil
  show ?case
  proof (cases "sep @ t")
    case Nil
    then show ?thesis by simp
  next
    case (Cons a list)
    have "prefix sep (sep @ t)" by simp
    with Cons show ?thesis by simp
  qed
next
  case (Cons a pre)
  then show ?case by simp
qed

lemma split_char_hd: "hd (split_from cur t [c]) = cur @ takeWhile (\<lambda>x. x \<noteq> c) t"
  by (induction t arbitrary: cur) auto

lemma replace_char_filter: "str_replace [c] [] s = filter (\<lambda>x. x \<noteq> c) s"
  by (induction s) auto

lemma getitem_0: "xs \<noteq> [] \<Longrightarrow> getitem xs 0 = Inr (hd xs)"
  by (cases xs) (auto simp: getitem_def)

lemma getitem_1: "getitem (x # y # ys) 1 = Inr y"
  by (simp add: getitem_def)

lemma scan_line_titles:
  assumes "scan_line (ts, cur) line = Inr (ts', cur')"
  shows "ts' = ts \<or> (ts' = ts @ [PDict cur] \<and> has_all_fields cur)"
proof (cases \<open>str_contains (str_strip line) ''"title":''\<close>)
  case True
  with assms show ?thesis
    by (simp add: scan_line_def Let_def split: sum.splits exn.splits if_splits)
next
  case False
  with assms show ?thesis
    by (simp add: scan_line_def Let_def split: sum.splits exn.splits if_splits)
qed

lemma split_from_two:
  "sep \<noteq> [] \<Longrightarrow> str_contains s sep \<Longrightarrow> \<exists>x y ys. split_from cur s sep = x # y # ys"
proof (induction cur s sep rule: split_from.induct)
  case (1 cur sep)
  then show ?case by simp
next
  case (2 cur c cs sep)
  show ?case
  proof (cases "prefix sep (c # cs)")
    case True
    obtain y ys where "split_from [] (drop (length sep) (c # cs)) sep = y # ys"
      using split_from_not_Nil by (metis list.exhaust)
    with True 2(3) show ?thesis by simp
  next
    case False
    with 2 show ?thesis by simp
  qed
qed

lemma dict_set_empty: "dict_set [] k v = [(k, v)]"
  by (simp add: dict_set_def dict_has_def)

lemma scan_line_title:
  assumes \<open>str_contains (str_strip line) ''"title":''\<close>
  shows \<open>scan_line (titles, cur) line =
     Inr (if cur \<noteq> [] \<and> has_all_fields cur then titles @ [PDict cur] else titles,
          [(ustr ''title'',
            PStr (ustr (str_strip (filter (\<lambda>c. c \<noteq> CHR ''"'')
              (takeWhile (\<lambda>c. c \<noteq> CHR '','') (str_split (str_strip line) ''"title":'' ! 1))))))])\<close>
proof -
  obtain x y ys where s: \<open>str_split (str_strip line) ''"title":'' = x # y # ys\<close>
    using split_from_two [OF _ assms, of "[]"] by (auto simp: str_split_def)
  have g1: \<open>getitem (str_split (str_strip line) ''"title":'') 1 = Inr y\<close>
    by (simp only: s getitem_1)
  have g0: "getitem (str_split y '','') 0 = Inr (takeWhile (\<lambda>c. c \<noteq> CHR '','') y)"
    using split_char_hd [of "[]" y "CHR '',''"] split_from_not_Nil [of "[]" y "'',''"]
    by (simp add: str_split_def getitem_0)
  have r: \<open>str_replace ''"'' [] z = filter (\<lambda>c. c \<noteq> CHR ''"'') z\<close> for z
    by (rule replace_char_filter)
  show ?thesis
    using assms
    by (simp add: scan_line_def then_do_def s getitem_1 g0 r dict_set_empty Let_def)
qed

lemma scan_lines_complete:
  assumes "\<forall>t\<in>set ts. \<exists>d. t = PDict d \<and> has_all_fields d"
    and "scan_lines (ts, cur) ls = Inr (ts', cur')"
  shows "\<forall>t\<in>set ts'. \<exists>d. t = PDict d \<and> has_all_fields d"
  using assms
proof (induction ls arbitrary: ts cur)
  case Nil
  then show ?case by simp
next
  case (Cons l ls)
  from Cons.prems(2) obtain ts1 cur1 where a: "scan_line (ts, cur) l = Inr (ts1, cur1)"
    and b: "scan_lines (ts1, cur1) ls = Inr (ts', cur')"
    by (auto simp: then_do_def split: sum.splits)
  from scan_line_titles [OF a] Cons.prems(1)
  have "\<forall>t\<in>set ts1. \<exists>d. t = PDict d \<and> has_all_fields d" by auto
  from Cons.IH [OF this b] show ?case .
qed

lemma loose_line_complete:
  assumes "\<forall>t\<in>set ts. \<exists>d. t = PDict d \<and> has_all_fields d"
    and "loose_line ts l = Inr ts'"
  shows "\<forall>t\<in>set ts'. \<exists>d. t = PDict d \<and> has_all_fields d"
proof -
  have "has_all_fields
     [(ustr ''title'', PStr x), (ustr ''seo_score'', PInt 7), (ustr ''reasoning'', PStr y)]" for x y
    by (simp add: has_all_fields_def dict_has_def)
  with assms show ?thesis
    by (auto simp: loose_line_def then_do_def Let_def split: sum.splits if_splits)
qed

lemma loose_lines_complete:
  assumes "\<forall>t\<in>set ts. \<exists>d. t = PDict d \<and> has_all_fields d"
    and "loose_lines ts ls = Inr ts'"
  shows "\<forall>t\<in>set ts'. \<exists>d. t = PDict d \<and> has_all_fields d"
  using assms
proof (induction ls arbitrary: ts)
  case Nil
  then show ?case by simp
next
  case (Cons l ls)
  from Cons.prems(2) obtain ts1 where a: "loose_line ts l = Inr ts1"
    and b: "loose_lines ts1 ls = Inr ts'"
    by (auto simp: then_do_def split: sum.splits)
  from Cons.IH [OF loose_line_complete [OF Cons.prems(1) a] b] show ?case .
qed

lemma parse_fallback_titles_complete:
  assumes "parse_fallback_titles content = Inr ts"
  shows "\<forall>t\<in>set ts. \<exists>d. t = PDict d \<and> has_all_fields d"
proof -
  from assms obtain ts1 cur1 where
    a: "scan_lines ([], []) (str_split content [CHR 0x0A]) = Inr (ts1, cur1)"
    by (auto simp: parse_fallback_titles_def then_do_def split: sum.splits)
  define ts2 where
    "ts2 = (if cur1 \<noteq> [] \<and> has_all_fields cur1 then ts1 @ [PDict cur1] else ts1)"
  have c1: "\<forall>t\<in>set ts1. \<exists>d. t = PDict d \<and> has_all_fields d"
    using scan_lines_complete [OF _ a] by simp
  then have c2: "\<forall>t\<in>set ts2. \<exists>d. t = PDict d \<and> has_all_fields d"
    by (auto simp: ts2_def)
  have e: "parse_fallback_titles content =
      (case (if ts2 = [] then loose_lines ts2 (str_splitlines content) else Inr ts2) of
         Inl e \<Rightarrow> Inl e | Inr t \<Rightarrow> Inr (take 5 t))"
    by (simp add: parse_fallback_titles_def then_do_def a Let_def ts2_def)
  from assms obtain ts3 where
    b: "(if ts2 = [] then loose_lines ts2 (str_splitlines content) else Inr ts2) = Inr ts3"
    and t: "ts = take 5 ts3"
    unfolding e by (auto split: sum.splits)
  have "\<forall>t\<in>set ts3. \<exists>d. t = PDict d \<and> has_all_fields d"
  proof (cases "ts2 = []")
    case True
    with b have "loose_lines ts2 (str_splitlines content) = Inr ts3" by simp
    from loose_lines_complete [OF c2 this] show ?thesis .
  next
    case False
    with b c2 show ?thesis by simp
  qed
  with t show ?thesis by (auto dest: in_set_takeD)
qed

lemma title_piece:
  assumes l: \<open>s = pre @ ''"title":'' @ piece @ rest\<close>
    and p: \<open>\<not> str_contains (pre @ ''"title"'') ''"title":''\<close>
    and q: \<open>\<not> str_contains (piece @ ''"title"'') ''"title":''\<close>
    and r: \<open>rest = [] \<or> prefix ''"title":'' rest\<close>
  shows \<open>str_split s ''"title":'' ! 1 = piece\<close>
proof -
  have b: \<open>butlast ''"title":'' = ''"title"''\<close> by simp
  have ne: \<open>''"title":'' \<noteq> []\<close> by simp
  have 1: \<open>str_split s ''"title":'' = pre # split_from [] (piece @ rest) ''"title":''\<close>
    unfolding str_split_def l
    using split_from_first [OF ne, of pre "[]" "piece @ rest"] p by (simp only: b) simp
  from r have \<open>hd (split_from [] (piece @ rest) ''"title":'') = piece\<close>
  proof
    assume e: "rest = []"
    from q str_contains_append have \<open>\<not> str_contains piece ''"title":''\<close> by blast
    from split_from_none [OF ne this, of "[]"] e show ?thesis by simp
  next
    assume \<open>prefix ''"title":'' rest\<close>
    then obtain r' where r': \<open>rest = ''"title":'' @ r'\<close> by (auto simp: prefix_def)
    from split_from_first [OF ne, of piece "[]" r'] q show ?thesis
      unfolding r' by (simp only: b) simp
  qed
  moreover have \<open>split_from [] (piece @ rest) ''"title":'' \<noteq> []\<close>
    by (rule split_from_not_Nil)
  ultimately show ?thesis
    by (cases \<open>split_from [] (piece @ rest) ''"title":''\<close>) (simp_all add: 1)
qed

text \<open>
  Against claim C10 as it is stated: a line on which the marker occurs twice before the
  first comma. The text between the marker and the first comma after it holds the second
  marker; the code takes the text up to the second marker only.
\<close>

theorem C10_counterexample:
  \<open>scan_line ([], []) ''"title": "A" "title": "B", x''
     = Inr ([], [(ustr ''title'', PStr (ustr ''A''))])
   \<and> claimed_title_value (str_strip ''"title": "A" "title": "B", x'') = ''A title: B''\<close>
  by code_simp

text \<open>
  Claim C10, amended. On a line that holds the marker \<open>"title":\<close>, let \<open>piece\<close> be the text
  between the first occurrence of the marker and its next occurrence, or the end of the
  trimmed line when there is no other: the first occurrence is the one after \<open>pre\<close>, since
  no occurrence starts in \<open>pre\<close>, and no occurrence starts in \<open>piece\<close>. The title value is
  \<open>piece\<close> up to its first comma (all of it when it has none), without its double quotes,
  and trimmed; so a title that contains a comma is cut at that comma. The record read so
  far is added to \<open>titles\<close> at that moment only if it has its three fields; and every
  record that \<open>_parse_fallback_titles\<close> returns has the three fields \<open>title\<close>,
  \<open>seo_score\<close> and \<open>reasoning\<close>.
\<close>

theorem C10_fallback_title_value:
  assumes \<open>str_strip line = pre @ ''"title":'' @ piece @ rest\<close>
    and \<open>\<not> str_contains (pre @ ''"title"'') ''"title":''\<close>
    and \<open>\<not> str_contains (piece @ ''"title"'') ''"title":''\<close>
    and \<open>rest = [] \<or> prefix ''"title":'' rest\<close>
  shows \<open>scan_line (titles, cur) line =
       Inr (if cur \<noteq> [] \<and> has_all_fields cur then titles @ [PDict cur] else titles,
            [(ustr ''title'',
              PStr (ustr (str_strip (filter (\<lambda>c. c \<noteq> CHR ''"'')
                (takeWhile (\<lambda>c. c \<noteq> CHR '','') piece)))))])
     \<and> (\<forall>content ts. parse_fallback_titles content = Inr ts \<longrightarrow>
          (\<forall>t\<in>set ts. \<exists>d. t = PDict d \<and> has_all_fields d))\<close>
proof -
  have \<open>str_contains (str_strip line) ''"title":''\<close>
    unfolding assms(1) by (rule str_contains_self)
  from scan_line_title [OF this, of titles cur] title_piece [OF assms]
  show ?thesis by (simp add: parse_fallback_titles_complete)
qed

theorem C10_fallback_title_value_witness:
  \<open>scan_line ([], []) ''  "title": "Hello, World", ''
     = Inr ([], [(ustr ''title'', PStr (ustr ''Hello''))])
   \<and> parse_fallback_titles
       (''"title": "Hello, World",'' @ [CHR 0x0A] @ ''"seo_score": 9,'' @ [CHR 0x0A]
          @ ''"reasoning": "good"}'')
     = Inr [PDict [(ustr ''title'', PStr (ustr ''Hello'')), (ustr ''seo_score'', PInt 9),
                   (ustr ''reasoning'', PStr (ustr ''good''))]]
   \<and> has_all_fields [(ustr ''title'', PStr (ustr ''Hello'')), (ustr ''seo_score'', PInt 9),
                      (ustr ''reasoning'', PStr (ustr ''good''))]\<close>
proof -
  have 1: \<open>str_strip ''  "title": "Hello, World", '' = [] @ ''"title":'' @ '' "Hello, World",'' @ []\<close>
    by code_simp
  have 2: \<open>\<not> str_contains ([] @ ''"title"'') ''"title":''\<close>
    by code_simp
  have 3: \<open>\<not> str_contains ('' "Hello, World",'' @ ''"title"'') ''"title":''\<close>
    by code_simp
  have 4: \<open>[] = [] \<or> prefix ''"title":'' []\<close>
    by simp
  have v: \<open>str_strip (filter (\<lambda>c. c \<noteq> CHR ''"'')
      (takeWhile (\<lambda>c. c \<noteq> CHR '','') '' "Hello, World",'')) = ''Hello''\<close>
    by code_simp
  have p: \<open>parse_fallback_titles
       (''"title": "Hello, World",'' @ [CHR 0x0A] @ ''"seo_score": 9,'' @ [CHR 0x0A]
          @ ''"reasoning": "good"}'')
     = Inr [PDict [(ustr ''title'', PStr (ustr ''Hello'')), (ustr ''seo_score'', PInt 9),
                   (ustr ''reasoning'', PStr (ustr ''good''))]]\<close>
    by code_simp
  from C10_fallback_title_value [OF 1 2 3 4, of "[]" "[]"]
  have a: \<open>scan_line ([], []) ''  "title": "Hello, World", ''
      = Inr ([], [(ustr ''title'', PStr (ustr ''Hello''))])\<close>
    and b: \<open>\<forall>content ts. parse_fallback_titles content = Inr ts \<longrightarrow>
          (\<forall>t\<in>set ts. \<exists>d. t = PDict d \<and> has_all_fields d)\<close>
    by (simp_all only: v) simp_all
  from b p have \<open>has_all_fields [(ustr ''title'', PStr (ustr ''Hello'')),
      (ustr ''seo_score'', PInt 9), (ustr ''reasoning'', PStr (ustr ''good''))]\<close>
    by fastforce
  with a p show ?thesis by blast
qed

section \<open>The paths of the two generators\<close>
































section \<open>The repair of a well-formed text\<close>

definition pattern_at :: "string \<Rightarrow> bool" where
  \<comment> \<open>the text starts with something that \<open>_clean_json_string\<close> rewrites: a comma before a
      closing bracket or brace, or a match of the key pattern\<close>
  "pattern_at t = (prefix '',]'' t \<or> prefix '',}'' t \<or> match_key t \<noteq> None)"

lemma replace_unchanged:
  "(\<forall>t. suffix t s \<longrightarrow> \<not> prefix old t) \<Longrightarrow> str_replace old new s = s"
proof (induction s)
  case Nil
  then show ?case by simp
next
  case (Cons c cs)
  have "\<not> prefix old (c # cs)" using Cons.prems by (simp add: suffix_order.refl)
  moreover have "\<forall>t. suffix t cs \<longrightarrow> \<not> prefix old t"
    using Cons.prems by (meson suffix_Cons)
  ultimately show ?case using Cons.IH by simp
qed

lemma sub_keys_unchanged:
  "(\<forall>t. suffix t s \<longrightarrow> match_key t = None) \<Longrightarrow> sub_keys s = s"
proof (induction s)
  case Nil
  then show ?case by simp
next
  case (Cons c cs)
  have "match_key (c # cs) = None" using Cons.prems by (simp add: suffix_order.refl)
  moreover have "\<forall>t. suffix t cs \<longrightarrow> match_key t = None"
    using Cons.prems by (meson suffix_Cons)
  ultimately show ?case using Cons.IH by simp
qed

text \<open>
  Against claim C6 as it is stated: a valid text with a comma and a bracket inside a
  string is changed.
\<close>

theorem C6_counterexample:
  \<open>json_loads ''["a,]"]'' = Inr (PList [PStr (ustr ''a,]'')])
   \<and> clean_json_string ''["a,]"]'' = ''["a]"]''\<close>
  by code_simp

text \<open>
  Claim C6, amended. \<open>_clean_json_string\<close> returns unchanged every text in which none of
  the texts it rewrites starts anywhere: no comma directly before \<open>]\<close> or \<open>}\<close>, and no
  \<open>{\<close> or comma followed by white space, an identifier, white space and a colon.
\<close>

theorem C6_clean_unchanged:
  assumes "\<forall>t. suffix t s \<longrightarrow> \<not> pattern_at t"
  shows "clean_json_string s = s"
proof -
  from assms have a: "\<forall>t. suffix t s \<longrightarrow> \<not> prefix '',]'' t"
    and b: "\<forall>t. suffix t s \<longrightarrow> \<not> prefix '',}'' t"
    and c: "\<forall>t. suffix t s \<longrightarrow> match_key t = None"
    unfolding pattern_at_def by blast+
  show ?thesis
    by (simp add: clean_json_string_def replace_unchanged [OF a] replace_unchanged [OF b]
        sub_keys_unchanged [OF c])
qed

theorem C6_clean_unchanged_witness:
  \<open>clean_json_string ''[1, "a"]'' = ''[1, "a"]''\<close>
proof -
  have \<open>\<forall>t. suffix t ''[1, "a"]'' \<longrightarrow> \<not> pattern_at t\<close>
    by (simp add: suffix_Cons pattern_at_def match_key_def isspace_def ident_start_def)
  then show ?thesis by (rule C6_clean_unchanged)
qed

end
